theory Spec2Isabelle
  imports Main
begin

section \<open>Go runtime values shared by both engines\<close>

text \<open>
  A Go string is a sequence of bytes: \<^typ>\<open>string\<close> (a list of 8-bit characters).
  A run-time panic is a value of the type below, so that every path of the source that
  aborts is a branch of the model.
\<close>

datatype panic =
    OrderPanic int
  | MakeLenOutOfRange
  | SliceBoundsOutOfRange
  | IndexOutOfRange
  | IntnInvalidArgument

text \<open>A Go \<open>error\<close> returned by a storage backend: \<open>nil\<close> or a message.\<close>

type_synonym error = "string option"

text \<open>\<open>make([]string, n)\<close>: a slice of \<open>n\<close> empty strings; panics when \<open>n\<close> is negative.\<close>

definition make_slice :: "int \<Rightarrow> panic + string list" where
  "make_slice n = (if n < 0 then Inl MakeLenOutOfRange else Inr (replicate (nat n) []))"

text \<open>
  The builtin \<open>copy(dst, src)\<close> overwrites the first \<open>min(len(dst), len(src))\<close>
  elements of \<open>dst\<close> and leaves the rest.
\<close>

definition copy :: "'a list \<Rightarrow> 'a list \<Rightarrow> 'a list" where
  "copy dst src =
     take (min (length dst) (length src)) src @ drop (min (length dst) (length src)) dst"

section \<open>The tuple builder of \<open>v2/brain/learn.go\<close>\<close>

record Tuple =
  Prefix :: "string list"
  Suffix :: string

record MessageMeta =
  ID :: string
  User :: string
  Tag :: string
  Time :: int

text \<open>
  The body shared by the loop of \<open>tupleToks\<close> and by its epilogue: a fresh tuple
  \<open>q\<close> with suffix \<open>w\<close>, \<open>copy(q.Prefix, p.Prefix[1:])\<close>, then
  \<open>q.Prefix[n-1] = ReduceEntropy(p.Suffix)\<close>. The function \<open>ReduceEntropy\<close> of the
  package is not among the sources; it is the first parameter.
\<close>

definition next_tuple :: "(string \<Rightarrow> string) \<Rightarrow> int \<Rightarrow> Tuple \<Rightarrow> string \<Rightarrow> panic + Tuple" where
  "next_tuple ReduceEntropy n p w =
     (case make_slice n of
        Inl e \<Rightarrow> Inl e
      | Inr q0 \<Rightarrow>
          if length (Prefix p) < 1 then Inl SliceBoundsOutOfRange
          else
            let q1 = copy q0 (drop 1 (Prefix p)) in
            if 0 \<le> n - 1 \<and> nat (n - 1) < length q1
            then Inr \<lparr>Prefix = q1[nat (n - 1) := ReduceEntropy (Suffix p)], Suffix = w\<rparr>
            else Inl IndexOutOfRange)"

fun tupleToks_loop ::
  "(string \<Rightarrow> string) \<Rightarrow> int \<Rightarrow> Tuple list \<Rightarrow> Tuple \<Rightarrow> string list \<Rightarrow> panic + (Tuple list \<times> Tuple)"
where
  "tupleToks_loop ReduceEntropy n tt p [] = Inr (tt, p)"
| "tupleToks_loop ReduceEntropy n tt p (w # ws) =
     (case next_tuple ReduceEntropy n p w of
        Inl e \<Rightarrow> Inl e
      | Inr q \<Rightarrow> tupleToks_loop ReduceEntropy n (tt @ [q]) q ws)"

definition tupleToks ::
  "(string \<Rightarrow> string) \<Rightarrow> Tuple list \<Rightarrow> string list \<Rightarrow> int \<Rightarrow> panic + Tuple list"
where
  "tupleToks ReduceEntropy tt toks n =
     (case make_slice n of
        Inl e \<Rightarrow> Inl e
      | Inr p0 \<Rightarrow>
          (case tupleToks_loop ReduceEntropy n tt \<lparr>Prefix = p0, Suffix = []\<rparr> toks of
             Inl e \<Rightarrow> Inl e
           | Inr (tt', p) \<Rightarrow>
               (case next_tuple ReduceEntropy n p [] of
                  Inl e \<Rightarrow> Inl e
                | Inr q \<Rightarrow> Inr (tt' @ [q]))))"

text \<open>
  The \<open>Learner\<close> interface. A backend is a state of type \<open>'st\<close> and three methods on
  it; \<open>Order\<close> only reads. The context argument of the source is handed through to the
  backend unchanged and is left out.
\<close>

record 'st Learner =
  Order :: "'st \<Rightarrow> int"
  Learner_Learn :: "MessageMeta option \<Rightarrow> Tuple list \<Rightarrow> 'st \<Rightarrow> error \<times> 'st"
  Learner_Forget :: "string \<Rightarrow> Tuple list \<Rightarrow> 'st \<Rightarrow> error \<times> 'st"

text \<open>
  \<open>Learn\<close> and \<open>Forget\<close> return the outcome (a panic, or the backend's error value)
  and the backend state afterwards.
\<close>

definition Learn ::
  "(string \<Rightarrow> string) \<Rightarrow> 'st Learner \<Rightarrow> MessageMeta option \<Rightarrow> string list \<Rightarrow> 'st
     \<Rightarrow> (panic + error) \<times> 'st"
where
  "Learn ReduceEntropy l meta toks st =
     (let n = Order l st in
      if n < 1 then (Inl (OrderPanic n), st)
      else
        (case tupleToks ReduceEntropy [] toks n of
           Inl e \<Rightarrow> (Inl e, st)
         | Inr tt \<Rightarrow> (case Learner_Learn l meta tt st of (err, st') \<Rightarrow> (Inr err, st'))))"

definition Forget ::
  "(string \<Rightarrow> string) \<Rightarrow> 'st Learner \<Rightarrow> string \<Rightarrow> string list \<Rightarrow> 'st
     \<Rightarrow> (panic + error) \<times> 'st"
where
  "Forget ReduceEntropy l tag toks st =
     (let n = Order l st in
      if n < 1 then (Inl (OrderPanic n), st)
      else
        (case tupleToks ReduceEntropy [] toks n of
           Inl e \<Rightarrow> (Inl e, st)
         | Inr tt \<Rightarrow> (case Learner_Forget l tag tt st of (err, st') \<Rightarrow> (Inr err, st'))))"

text \<open>
  A backend for evaluating \<open>Learn\<close> and \<open>Forget\<close>: its order is \<open>n\<close>, its state
  is the list of the tuple lists it was called with, and it never fails.
\<close>

definition recorder :: "int \<Rightarrow> (Tuple list list) Learner" where
  "recorder n =
     \<lparr>Order = (\<lambda>st. n),
      Learner_Learn = (\<lambda>meta tt st. (None, st @ [tt])),
      Learner_Forget = (\<lambda>tag tt st. (None, st @ [tt]))\<rparr>"

section \<open>The standard library calls of the first engine (\<open>robot.go\<close>)\<close>

text \<open>
  \<open>strings.ToLower\<close> and \<open>strings.Fields\<close> work on bytes as long as the string is
  ASCII, and go through the Unicode tables of the standard library otherwise. The ASCII
  paths are written out; the Unicode paths, \<open>strings.Map(unicode.ToLower, s)\<close> and
  \<open>strings.FieldsFunc(s, unicode.IsSpace)\<close>, are not code of the repository and are the
  two fields of a parameter.
\<close>

record unicode =
  MapToLower :: "string \<Rightarrow> string"
  FieldsFuncIsSpace :: "string \<Rightarrow> string list"

abbreviation SOH :: string where "SOH \<equiv> [CHR 0x01]"
abbreviation NUL :: string where "NUL \<equiv> [CHR 0x00]"
abbreviation SP :: string where "SP \<equiv> [CHR 0x20]"

definition isASCII :: "string \<Rightarrow> bool" where
  "isASCII s = list_all (\<lambda>ch. (of_char ch :: nat) < 128) s"

definition lower_byte :: "char \<Rightarrow> char" where
  "lower_byte ch =
     (if (65::nat) \<le> of_char ch \<and> (of_char ch :: nat) \<le> 90
      then char_of ((of_char ch :: nat) + 32) else ch)"

definition ToLower :: "unicode \<Rightarrow> string \<Rightarrow> string" where
  "ToLower U s = (if isASCII s then map lower_byte s else MapToLower U s)"

definition asciiSpace :: "char \<Rightarrow> bool" where
  "asciiSpace ch =
     (ch = CHR 0x09 \<or> ch = CHR 0x0A \<or> ch = CHR 0x0B \<or> ch = CHR 0x0C \<or> ch = CHR 0x0D
      \<or> ch = CHR 0x20)"

text \<open>The fields of an ASCII string, \<open>cur\<close> being the field read so far.\<close>

fun Fields_ascii :: "string \<Rightarrow> string \<Rightarrow> string list" where
  "Fields_ascii cur [] = (if cur = [] then [] else [cur])"
| "Fields_ascii cur (ch # s) =
     (if asciiSpace ch
      then (if cur = [] then Fields_ascii [] s else cur # Fields_ascii [] s)
      else Fields_ascii (cur @ [ch]) s)"

definition Fields :: "unicode \<Rightarrow> string \<Rightarrow> string list" where
  "Fields U s = (if isASCII s then Fields_ascii [] s else FieldsFuncIsSpace U s)"

text \<open>\<open>strings.TrimRight(s, cutset)\<close> for a cutset of ASCII bytes.\<close>

definition TrimRight :: "string \<Rightarrow> string \<Rightarrow> string" where
  "TrimRight s cutset = rev (dropWhile (\<lambda>ch. ch \<in> set cutset) (rev s))"

fun Join :: "string list \<Rightarrow> string \<Rightarrow> string" where
  "Join [] sep = []"
| "Join [x] sep = x"
| "Join (x # y # ys) sep = x @ sep @ Join (y # ys) sep"

definition Repeat :: "string \<Rightarrow> nat \<Rightarrow> string" where
  "Repeat s count = concat (replicate count s)"

text \<open>The slice expression \<open>xs[lo:hi]\<close>, for \<open>lo \<le> hi \<le> len(xs)\<close>.\<close>

definition slice :: "'a list \<Rightarrow> nat \<Rightarrow> nat \<Rightarrow> 'a list" where
  "slice xs lo hi = take (hi - lo) (drop lo xs)"

text \<open>
  \<open>rand.Intn(n)\<close> panics unless \<open>n\<close> is positive and otherwise returns a number below
  \<open>n\<close>; \<open>raw\<close> is the generator's draw, reduced modulo \<open>n\<close>.
\<close>

definition Intn :: "nat \<Rightarrow> nat \<Rightarrow> panic + nat" where
  "Intn raw n = (if n = 0 then Inl IntnInvalidArgument else Inr (raw mod n))"

section \<open>Learning in the first engine: \<open>Filter\<close>\<close>

text \<open>
  The chain is a Go \<open>map[string][]string\<close>. A key that is absent and a key whose value
  is the nil slice both read as \<open>nil\<close>: they are \<open>None\<close>. \<open>Some []\<close> is an empty slice
  that is not nil.
\<close>

type_synonym chain = "string \<rightharpoonup> string list"

definition lookup :: "chain \<Rightarrow> string \<Rightarrow> string list" where
  "lookup c k = (case c k of None \<Rightarrow> [] | Some ws \<Rightarrow> ws)"

text \<open>\<open>c[word] = append(c[word], v)\<close>\<close>

definition chain_append :: "chain \<Rightarrow> string \<Rightarrow> string \<Rightarrow> chain" where
  "chain_append c word v = c(word \<mapsto> lookup c word @ [v])"

text \<open>
  The global \<open>prefix\<close> is the order of the chain; \<open>main\<close> stops the program unless it
  is at least 1, so it is a natural number here. The first loop of \<open>Filter\<close>, from
  index \<open>i\<close>: the result says whether the function has returned inside the loop.
  The index \<open>i\<close> never exceeds \<open>len(words)\<close> when \<open>words[0:i]\<close> is taken, so the
  slice is in range.
\<close>

function Filter_ramp :: "unicode \<Rightarrow> nat \<Rightarrow> string list \<Rightarrow> nat \<Rightarrow> chain \<Rightarrow> chain \<times> bool" where
  "Filter_ramp U prefix words i c =
     (if i < prefix then
        let word = Repeat (SOH @ SP) (prefix - i) @ ToLower U (Join (slice words 0 i) SP) in
        if i \<ge> length words then (chain_append c word NUL, True)
        else Filter_ramp U prefix words (i + 1) (chain_append c word (words ! i))
      else (c, False))"
  by pat_completeness auto
termination
  by (relation "measure (\<lambda>(U, prefix, words, i, c). prefix - i)") auto

text \<open>
  The second loop, from index \<open>i\<close>. The result is \<open>Some j\<close> where the source calls
  \<open>Filter(c, words[j:])\<close> and returns, and \<open>None\<close> where the loop ends and the
  last statements of \<open>Filter\<close> run.
\<close>

function Filter_window ::
  "unicode \<Rightarrow> nat \<Rightarrow> string list \<Rightarrow> nat \<Rightarrow> chain \<Rightarrow> chain \<times> nat option"
where
  "Filter_window U prefix words i c =
     (if i < length words then
        if length (words ! i) = 0 then
          (if int i < int (length words) - 1 then (c, Some (i + 1)) else (c, None))
        else
          let word = ToLower U (Join (slice words (i - prefix) i) SP) in
          Filter_window U prefix words (i + 1) (chain_append c word (words ! i))
      else (c, None))"
  by pat_completeness auto
termination
  by (relation "measure (\<lambda>(U, prefix, words, i, c). length words - i)") auto

declare Filter_ramp.simps [simp del] Filter_window.simps [simp del]

lemma Filter_window_rest:
  "Filter_window U prefix words i c = (c', Some j) \<Longrightarrow> 0 < j \<and> j < length words"
proof (induction U prefix words i c rule: Filter_window.induct)
  case (1 U prefix words i c)
  show ?case
  proof (cases "i < length words")
    case False
    with "1.prems" show ?thesis
      by (simp add: Filter_window.simps[of U prefix words i c])
  next
    case True
    show ?thesis
    proof (cases "length (words ! i) = 0")
      case e: True
      with True "1.prems" show ?thesis
        by (auto simp: Filter_window.simps[of U prefix words i c] split: if_splits)
    next
      case ne: False
      with True "1.prems" have "Filter_window U prefix words (i + 1)
          (chain_append c (ToLower U (Join (slice words (i - prefix) i) SP)) (words ! i))
            = (c', Some j)"
        by (simp add: Filter_window.simps[of U prefix words i c] Let_def)
      with "1.IH"[OF True ne refl] show ?thesis .
    qed
  qed
qed

text \<open>
  \<open>Filter\<close> itself: the first loop, the second loop from index \<open>prefix\<close>, then
  either the recursive call on the rest of the words or the end marker under the last
  \<open>prefix\<close> words. No statement of \<open>Filter\<close> can panic: every index and slice bound
  is guarded by the loop conditions.
\<close>

function Filter :: "unicode \<Rightarrow> nat \<Rightarrow> chain \<Rightarrow> string list \<Rightarrow> chain" where
  "Filter U prefix c words =
     (case Filter_ramp U prefix words 0 c of
        (c1, True) \<Rightarrow> c1
      | (c1, False) \<Rightarrow>
          (case Filter_window U prefix words prefix c1 of
             (c2, Some j) \<Rightarrow> Filter U prefix c2 (slice words j (length words))
           | (c2, None) \<Rightarrow>
               chain_append c2
                 (ToLower U (Join (slice words (length words - prefix) (length words)) SP))
                 NUL))"
  by pat_completeness auto
termination
  by (relation "measure (\<lambda>(U, prefix, c, words). length words)")
     (auto simp: slice_def dest!: Filter_window_rest[OF sym])

declare Filter.simps [simp del]

text \<open>
  A sequence of statements \<open>c[word] = append(c[word], v)\<close>, one for each pair of the
  list, in its order. It is what \<open>Filter\<close> is shown to perform.
\<close>

definition chain_appends :: "chain \<Rightarrow> (string \<times> string) list \<Rightarrow> chain" where
  "chain_appends c log = foldl (\<lambda>c' (word, v). chain_append c' word v) c log"

text \<open>
  The occurrences that a message of \<open>k\<close> words teaches, written after the
  specification's description of the tuple sequence and in the key format of the first
  engine, to be compared with what \<open>Filter\<close> records. Occurrence \<open>i\<close>, for
  \<open>0 \<le> i \<le> k\<close>, has as its key the lower-cased \<open>prefix\<close> words before position
  \<open>i\<close> joined by spaces, with one \<open>"\x01 "\<close> for every slot before the start of the
  message, and as its suffix word \<open>i\<close>, or the end marker \<open>"\x00"\<close> for \<open>i = k\<close>.
\<close>

definition transition_key :: "unicode \<Rightarrow> nat \<Rightarrow> string list \<Rightarrow> nat \<Rightarrow> string" where
  "transition_key U prefix words i =
     (if i < prefix
      then Repeat (SOH @ SP) (prefix - i) @ ToLower U (Join (slice words 0 i) SP)
      else ToLower U (Join (slice words (i - prefix) i) SP))"

definition transition_suffix :: "string list \<Rightarrow> nat \<Rightarrow> string" where
  "transition_suffix words i = (if i < length words then words ! i else NUL)"

definition transitions :: "unicode \<Rightarrow> nat \<Rightarrow> string list \<Rightarrow> (string \<times> string) list" where
  "transitions U prefix words =
     map (\<lambda>i. (transition_key U prefix words i, transition_suffix words i))
       [0..<length words + 1]"

section \<open>Generation in the first engine: \<open>Walk\<close>\<close>

text \<open>
  \<open>nextword := words[rand.Intn(len(words))]\<close>, \<open>raw\<close> being the generator's draw.
\<close>

definition Walk_sample :: "string list \<Rightarrow> nat \<Rightarrow> panic + string" where
  "Walk_sample words raw =
     (case Intn raw (length words) of Inl e \<Rightarrow> Inl e | Inr r \<Rightarrow> Inr (words ! r))"

text \<open>
  The loop of \<open>Walk\<close>. \<open>rnd i\<close> is the draw of the generator in iteration \<open>i\<close>;
  \<open>sum_len\<close> is the variable \<open>sum\<close> of the source. The loop may run forever, so the
  result is an option: \<open>None\<close> is a walk that never returns. A walk that returns gives
  the number of times the loop body was entered and either the panic that ended it or
  the string \<open>Walk\<close> returns. Slicing \<open>strings.Fields(...)[1:]\<close> panics when there
  is no field.
\<close>

partial_function (option) Walk_loop ::
  "unicode \<Rightarrow> chain \<Rightarrow> (nat \<Rightarrow> nat) \<Rightarrow> nat \<Rightarrow> string \<Rightarrow> string list \<Rightarrow> nat
     \<Rightarrow> (nat \<times> (panic + string)) option"
where
  "Walk_loop U c rnd i word s sum_len =
     (if sum_len < 400 then
        (case c (ToLower U word) of
           None \<Rightarrow> Some (i + 1, Inr (Join s SP))
         | Some words \<Rightarrow>
             (case Walk_sample words (rnd i) of
                Inl e \<Rightarrow> Some (i + 1, Inl e)
              | Inr nextword \<Rightarrow>
                  if nextword = NUL then Some (i + 1, Inr (Join s SP))
                  else
                    (case Fields U (TrimRight word SP) of
                       [] \<Rightarrow> Some (i + 1, Inl SliceBoundsOutOfRange)
                     | f # fs \<Rightarrow>
                         Walk_loop U c rnd (i + 1) (Join (fs @ [nextword]) SP)
                           (if nextword \<noteq> SOH then s @ [nextword] else s)
                           (if nextword \<noteq> SOH then sum_len + (length nextword + 1)
                            else sum_len))))
      else Some (i, Inr (Join s SP)))"

declare Walk_loop.simps [code]

definition Walk :: "unicode \<Rightarrow> chain \<Rightarrow> (nat \<Rightarrow> nat) \<Rightarrow> string \<Rightarrow> (panic + string) option" where
  "Walk U c rnd word = map_option snd (Walk_loop U c rnd 0 word [] 0)"

text \<open>
  An instance of the Unicode parameter for evaluating the functions on ASCII strings,
  where its fields are never called.
\<close>

definition ascii_only :: unicode where
  "ascii_only = \<lparr>MapToLower = map lower_byte, FieldsFuncIsSpace = Fields_ascii []\<rparr>"

text \<open>
  The words of the chat line \<open>"a \x01 \x01 \x01 "\<close> as \<open>strings.Split(line, " ")\<close>
  gives them, and the chain of a bot that has learned this one line with the default
  order 2.
\<close>

definition hang_words :: "string list" where
  "hang_words = [''a'', SOH, SOH, SOH, '''']"

definition hang_chain :: chain where
  "hang_chain = Filter ascii_only 2 Map.empty hang_words"

section \<open>The tuple builder in closed form\<close>

lemma copy_shift: "copy (replicate (Suc (length xs)) y) xs = xs @ [y]"
  by (simp add: copy_def min_def replicate_append_same[symmetric])

lemma next_tuple_ok:
  assumes "length (Prefix p) = nat n" "1 \<le> n"
  shows "next_tuple RE n p w = Inr \<lparr>Prefix = tl (Prefix p) @ [RE (Suffix p)], Suffix = w\<rparr>"
proof -
  obtain x xs where px: "Prefix p = x # xs"
    using assms by (cases "Prefix p") auto
  with assms have n: "nat n = Suc (length xs)" "nat (n - 1) = length xs"
    by auto
  show ?thesis
    using assms(2) by (simp add: next_tuple_def make_slice_def px n copy_shift Let_def del: replicate.simps)
qed

lemma tupleToks_loop_snoc:
  "tupleToks_loop RE n tt p (ws @ [w]) =
     (case tupleToks_loop RE n tt p ws of
        Inl e \<Rightarrow> Inl e
      | Inr (tt', p') \<Rightarrow>
          (case next_tuple RE n p' w of Inl e \<Rightarrow> Inl e | Inr q \<Rightarrow> Inr (tt' @ [q], q)))"
  by (induction ws arbitrary: tt p) (auto split: sum.splits)

lemma tupleToks_loop_closed:
  assumes "length (Prefix p) = nat n" "1 \<le> n"
  shows "\<exists>qs. tupleToks_loop RE n tt p ws = Inr (tt @ qs, last (p # qs)) \<and>
           length qs = length ws \<and>
           (\<forall>j<length ws. qs ! j =
              \<lparr>Prefix = drop (Suc j) (Prefix p @ RE (Suffix p) # map RE (take j ws)),
               Suffix = ws ! j\<rparr>)"
  using assms
proof (induction ws arbitrary: tt p)
  case Nil
  then show ?case by simp
next
  case (Cons w ws)
  define q where "q = \<lparr>Prefix = tl (Prefix p) @ [RE (Suffix p)], Suffix = w\<rparr>"
  obtain x xs where px: "Prefix p = x # xs"
    using Cons.prems by (cases "Prefix p") auto
  have step: "next_tuple RE n p w = Inr q"
    unfolding q_def using Cons.prems by (rule next_tuple_ok)
  have lq: "length (Prefix q) = nat n"
    using Cons.prems px by (simp add: q_def)
  from Cons.IH[OF lq Cons.prems(2), of "tt @ [q]"]
  obtain qs where qs: "tupleToks_loop RE n (tt @ [q]) q ws = Inr ((tt @ [q]) @ qs, last (q # qs))"
      "length qs = length ws"
      "\<forall>j<length ws. qs ! j =
          \<lparr>Prefix = drop (Suc j) (Prefix q @ RE (Suffix q) # map RE (take j ws)), Suffix = ws ! j\<rparr>"
    by blast
  have nth: "(q # qs) ! j =
      \<lparr>Prefix = drop (Suc j) (Prefix p @ RE (Suffix p) # map RE (take j (w # ws))),
       Suffix = (w # ws) ! j\<rparr>" if "j < length (w # ws)" for j
  proof (cases j)
    case 0
    then show ?thesis by (simp add: q_def px)
  next
    case (Suc k)
    with that have "k < length ws" by simp
    with qs(3) have "qs ! k =
        \<lparr>Prefix = drop (Suc k) (Prefix q @ RE (Suffix q) # map RE (take k ws)), Suffix = ws ! k\<rparr>"
      by blast
    then show ?thesis using Suc by (simp add: q_def px)
  qed
  show ?case
    apply (rule exI[of _ "q # qs"])
    using qs(1,2) nth by (simp add: step)
qed

lemma tupleToks_closed:
  assumes "1 \<le> n"
  shows "\<exists>qs. tupleToks RE tt toks n = Inr (tt @ qs) \<and>
           length qs = length toks + 1 \<and>
           (\<forall>j\<le>length toks. qs ! j =
              \<lparr>Prefix = drop (Suc j) (replicate (nat n) [] @ RE [] # map RE (take j toks)),
               Suffix = (toks @ ['''']) ! j\<rparr>)"
proof -
  define p0 where "p0 = \<lparr>Prefix = replicate (nat n) [], Suffix = []\<rparr>"
  have l0: "length (Prefix p0) = nat n" by (simp add: p0_def)
  from tupleToks_loop_closed[OF l0 assms, of RE tt "toks @ ['''']"]
  obtain qs where qs: "tupleToks_loop RE n tt p0 (toks @ ['''']) = Inr (tt @ qs, last (p0 # qs))"
      "length qs = length (toks @ [''''])"
      "\<forall>j<length (toks @ ['''']). qs ! j =
          \<lparr>Prefix = drop (Suc j) (Prefix p0 @ RE (Suffix p0) # map RE (take j (toks @ ['''']))),
           Suffix = (toks @ ['''']) ! j\<rparr>"
    by blast
  have eq: "tupleToks RE tt toks n =
      (case tupleToks_loop RE n tt p0 (toks @ ['''']) of Inl e \<Rightarrow> Inl e | Inr (tt', p') \<Rightarrow> Inr tt')"
    using assms
    by (simp add: tupleToks_def make_slice_def p0_def tupleToks_loop_snoc split: sum.splits prod.splits)
  have "\<forall>j\<le>length toks. qs ! j =
      \<lparr>Prefix = drop (Suc j) (replicate (nat n) [] @ RE [] # map RE (take j toks)),
       Suffix = (toks @ ['''']) ! j\<rparr>"
  proof (intro allI impI)
    fix j assume j: "j \<le> length toks"
    then have "j < length (toks @ [''''])" by simp
    with qs(3) have "qs ! j =
        \<lparr>Prefix = drop (Suc j) (Prefix p0 @ RE (Suffix p0) # map RE (take j (toks @ ['''']))),
         Suffix = (toks @ ['''']) ! j\<rparr>" by blast
    then show "qs ! j =
      \<lparr>Prefix = drop (Suc j) (replicate (nat n) [] @ RE [] # map RE (take j toks)),
       Suffix = (toks @ ['''']) ! j\<rparr>"
      using j by (simp add: p0_def)
  qed
  then show ?thesis using qs(1,2) by (auto simp: eq)
qed

section \<open>Claims about the tuple builder, \<open>Learn\<close> and \<open>Forget\<close>\<close>

text \<open>
  C9. The two traces of the tuple builder, for a \<open>ReduceEntropy\<close> that is the identity
  on the tokens involved: order 1 and tokens \<open>["hi"]\<close> give the tuples
  \<open>{[""], "hi"}\<close> and \<open>{["hi"], ""}\<close>; order 2 and tokens \<open>["hello", "world"]\<close>
  give \<open>{["", ""], "hello"}\<close>, \<open>{["", "hello"], "world"}\<close> and
  \<open>{["hello", "world"], ""}\<close>, in this order.
\<close>

theorem tupleToks_traces:
  assumes "RE [] = []" "RE ''hi'' = ''hi''" "RE ''hello'' = ''hello''" "RE ''world'' = ''world''"
  shows "tupleToks RE [] [''hi''] 1 =
           Inr [\<lparr>Prefix = [''''], Suffix = ''hi''\<rparr>, \<lparr>Prefix = [''hi''], Suffix = ''''\<rparr>] \<and>
         tupleToks RE [] [''hello'', ''world''] 2 =
           Inr [\<lparr>Prefix = ['''', ''''], Suffix = ''hello''\<rparr>,
                \<lparr>Prefix = ['''', ''hello''], Suffix = ''world''\<rparr>,
                \<lparr>Prefix = [''hello'', ''world''], Suffix = ''''\<rparr>]"
  using assms
  by (simp add: tupleToks_def next_tuple_def make_slice_def copy_def numeral_2_eq_2)

theorem tupleToks_traces_witness:
  "tupleToks (ToLower ascii_only) [] [''hi''] 1 =
     Inr [\<lparr>Prefix = [''''], Suffix = ''hi''\<rparr>, \<lparr>Prefix = [''hi''], Suffix = ''''\<rparr>] \<and>
   tupleToks (ToLower ascii_only) [] [''hello'', ''world''] 2 =
     Inr [\<lparr>Prefix = ['''', ''''], Suffix = ''hello''\<rparr>,
          \<lparr>Prefix = ['''', ''hello''], Suffix = ''world''\<rparr>,
          \<lparr>Prefix = [''hello'', ''world''], Suffix = ''''\<rparr>]"
  using tupleToks_traces[of "ToLower ascii_only"]
  by (simp add: ToLower_def isASCII_def lower_byte_def)

text \<open>
  C5. When \<open>Order()\<close> is less than 1, \<open>Learn\<close> and \<open>Forget\<close> panic with the order
  error and leave the backend as it was: no method of it other than \<open>Order\<close> has run.
  When \<open>Order()\<close> is at least 1, neither panics: each returns what the backend's
  method returned.
\<close>

theorem Learn_Forget_order_check:
  "(Order l st < 1 \<longrightarrow>
      Learn RE l meta toks st = (Inl (OrderPanic (Order l st)), st) \<and>
      Forget RE l tag toks st = (Inl (OrderPanic (Order l st)), st)) \<and>
   (1 \<le> Order l st \<longrightarrow>
      (\<exists>err st'. Learn RE l meta toks st = (Inr err, st')) \<and>
      (\<exists>err st'. Forget RE l tag toks st = (Inr err, st')))"
proof (intro conjI impI)
  assume n: "1 \<le> Order l st"
  from tupleToks_closed[OF n, of RE "[]" toks]
  obtain tt where tt: "tupleToks RE [] toks (Order l st) = Inr tt" by auto
  show "\<exists>err st'. Learn RE l meta toks st = (Inr err, st')"
    using n tt by (simp add: Learn_def split: prod.splits)
  show "\<exists>err st'. Forget RE l tag toks st = (Inr err, st')"
    using n tt by (simp add: Forget_def split: prod.splits)
qed (simp_all add: Learn_def Forget_def)

theorem Learn_Forget_order_check_witness:
  "Learn (ToLower ascii_only) (recorder 0) None [''hi''] [] = (Inl (OrderPanic 0), []) \<and>
   Forget (ToLower ascii_only) (recorder 0) ''tag'' [''hi''] [] = (Inl (OrderPanic 0), []) \<and>
   (\<exists>err st'. Learn (ToLower ascii_only) (recorder 1) None [''hi''] [] = (Inr err, st')) \<and>
   (\<exists>err st'. Forget (ToLower ascii_only) (recorder 1) ''tag'' [''hi''] [] = (Inr err, st'))"
  using Learn_Forget_order_check
          [of "recorder 0" "[]" "ToLower ascii_only" None "[''hi'']" "''tag''"]
        Learn_Forget_order_check
          [of "recorder 1" "[]" "ToLower ascii_only" None "[''hi'']" "''tag''"]
  by (simp add: recorder_def)

text \<open>
  C6. For two learners that report the same order \<open>n \<ge> 1\<close> and the same tokens, the
  tuple list that \<open>Forget\<close> hands to the backend's \<open>Forget\<close> method is the tuple list
  that \<open>Learn\<close> hands to the backend's \<open>Learn\<close> method: the list \<open>tupleToks\<close>
  builds.
\<close>

theorem Learn_Forget_same_tuples:
  assumes "Order l1 st1 = n" "Order l2 st2 = n" "1 \<le> n"
  shows "\<exists>tt. tupleToks RE [] toks n = Inr tt \<and>
           Learn RE l1 meta toks st1 =
             (Inr (fst (Learner_Learn l1 meta tt st1)), snd (Learner_Learn l1 meta tt st1)) \<and>
           Forget RE l2 tag toks st2 =
             (Inr (fst (Learner_Forget l2 tag tt st2)), snd (Learner_Forget l2 tag tt st2))"
proof -
  from tupleToks_closed[OF assms(3), of RE "[]" toks]
  obtain tt where tt: "tupleToks RE [] toks n = Inr tt" by auto
  show ?thesis
    using assms tt by (auto simp: Learn_def Forget_def split: prod.splits)
qed

theorem Learn_Forget_same_tuples_witness:
  "\<exists>tt. tupleToks (ToLower ascii_only) [] [''hi''] 1 = Inr tt \<and>
     Learn (ToLower ascii_only) (recorder 1) None [''hi''] [] = (Inr None, [tt]) \<and>
     Forget (ToLower ascii_only) (recorder 1) ''tag'' [''hi''] [Nil] = (Inr None, [Nil, tt])"
  using Learn_Forget_same_tuples
          [of "recorder 1" "[]" 1 "recorder 1" "[Nil]" "ToLower ascii_only" "[''hi'']" None "''tag''"]
  by (simp add: recorder_def)

text \<open>
  C2. For an order \<open>n \<ge> 1\<close> and \<open>k \<ge> n\<close> tokens, none of them empty, and a
  \<open>ReduceEntropy\<close> that keeps the empty sentinel and maps no token to it:
  \<open>tupleToks\<close> returns \<open>k + 1\<close> tuples, each with a prefix of length \<open>n\<close>;
  for \<open>i < n\<close>, tuple \<open>i\<close> has \<open>n - i\<close> sentinels followed by the first \<open>i\<close>
  tokens reduced, so \<open>i\<close> entries that are not the sentinel, and its suffix is
  token \<open>i\<close>; the last tuple has the last \<open>n\<close> tokens reduced as its prefix and
  the empty sentinel as its suffix.
\<close>

theorem tupleToks_shape:
  assumes n: "1 \<le> n" and k: "nat n \<le> length toks" and ne: "[] \<notin> set toks"
    and RE_sentinel: "RE [] = []" and RE_token: "\<forall>t. t \<noteq> [] \<longrightarrow> RE t \<noteq> []"
  shows "\<exists>tt. tupleToks RE [] toks n = Inr tt \<and> length tt = length toks + 1 \<and>
           (\<forall>j<length tt. length (Prefix (tt ! j)) = nat n) \<and>
           (\<forall>i<nat n.
              Prefix (tt ! i) = replicate (nat n - i) [] @ map RE (take i toks) \<and>
              Suffix (tt ! i) = toks ! i \<and>
              length (filter (\<lambda>x. x \<noteq> []) (Prefix (tt ! i))) = i) \<and>
           Prefix (last tt) = map RE (drop (length toks - nat n) toks) \<and>
           Suffix (last tt) = []"
proof -
  from tupleToks_closed[OF n, of RE "[]" toks]
  obtain tt where run: "tupleToks RE [] toks n = Inr tt"
    and len: "length tt = length toks + 1"
    and nth: "\<And>j. j \<le> length toks \<Longrightarrow> tt ! j =
          \<lparr>Prefix = drop (Suc j) (replicate (nat n) [] @ RE [] # map RE (take j toks)),
           Suffix = (toks @ ['''']) ! j\<rparr>"
    by auto
  have width: "length (Prefix (tt ! j)) = nat n" if "j < length tt" for j
    using that len by (simp add: nth)
  have ramp: "Prefix (tt ! i) = replicate (nat n - i) [] @ map RE (take i toks) \<and>
      Suffix (tt ! i) = toks ! i \<and>
      length (filter (\<lambda>x. x \<noteq> []) (Prefix (tt ! i))) = i" if i: "i < nat n" for i
  proof -
    have il: "i < length toks" using i k by simp
    have "replicate (nat n) [] @ RE [] # map RE (take i toks)
        = replicate (Suc (nat n)) ([]::string) @ map RE (take i toks)"
      by (simp add: RE_sentinel replicate_app_Cons_same)
    also have "Suc (nat n) = Suc i + (nat n - i)"
      using i by simp
    finally have eq: "replicate (nat n) [] @ RE [] # map RE (take i toks)
        = replicate (Suc i) ([]::string) @ replicate (nat n - i) [] @ map RE (take i toks)"
      by (simp only: replicate_add append_assoc)
    have "drop (Suc i) (replicate (nat n) [] @ RE [] # map RE (take i toks))
        = replicate (nat n - i) [] @ map RE (take i toks)"
      unfolding eq by (simp del: replicate.simps)
    then have p: "Prefix (tt ! i) = replicate (nat n - i) [] @ map RE (take i toks)"
      using il by (simp add: nth del: replicate.simps)
    have "\<forall>x\<in>set (take i toks). RE x \<noteq> []"
      using ne RE_token by (metis in_set_takeD)
    then have "filter (\<lambda>x. x \<noteq> []) (map RE (take i toks)) = map RE (take i toks)"
      by (simp add: filter_map o_def)
    then have "length (filter (\<lambda>x. x \<noteq> []) (Prefix (tt ! i))) = i"
      using il by (simp add: p)
    moreover have "Suffix (tt ! i) = toks ! i"
      using il by (simp add: nth nth_append)
    ultimately show ?thesis using p by simp
  qed
  have lt: "last tt = tt ! length toks"
    using len by (metis add_diff_cancel_right' last_conv_nth length_0_conv add_is_0 zero_neq_one)
  have pad: "replicate (nat n) [] @ RE [] # map RE toks
      = replicate (Suc (nat n)) ([]::string) @ map RE toks"
    by (simp add: RE_sentinel replicate_app_Cons_same)
  have "Prefix (last tt) = drop (Suc (length toks)) (replicate (nat n) [] @ RE [] # map RE toks)"
    by (simp add: lt nth)
  also have "\<dots> = map RE (drop (length toks - nat n) toks)"
    unfolding pad using k by (simp add: drop_map Suc_diff_le del: replicate.simps)
  finally have fin: "Prefix (last tt) = map RE (drop (length toks - nat n) toks)" .
  have "Suffix (last tt) = []" by (simp add: lt nth)
  with run len width ramp fin show ?thesis by blast
qed

theorem tupleToks_shape_witness:
  "\<exists>tt. tupleToks (map lower_byte) [] [''Hi'', ''You'', ''There''] 2 = Inr tt \<and>
     length tt = length [''Hi'', ''You'', ''There''] + 1 \<and>
     (\<forall>j<length tt. length (Prefix (tt ! j)) = nat 2) \<and>
     (\<forall>i<nat 2.
        Prefix (tt ! i) =
          replicate (nat 2 - i) [] @ map (map lower_byte) (take i [''Hi'', ''You'', ''There'']) \<and>
        Suffix (tt ! i) = [''Hi'', ''You'', ''There''] ! i \<and>
        length (filter (\<lambda>x. x \<noteq> []) (Prefix (tt ! i))) = i) \<and>
     Prefix (last tt) =
       map (map lower_byte)
         (drop (length [''Hi'', ''You'', ''There''] - nat 2) [''Hi'', ''You'', ''There'']) \<and>
     Suffix (last tt) = []"
proof -
  have "(1::int) \<le> 2" "nat 2 \<le> length [''Hi'', ''You'', ''There'']"
    "[] \<notin> set [''Hi'', ''You'', ''There'']" "map lower_byte [] = []"
    "\<forall>t. t \<noteq> [] \<longrightarrow> map lower_byte t \<noteq> []"
    by simp_all
  from tupleToks_shape[OF this] show ?thesis .
qed

section \<open>\<open>Filter\<close> as a sequence of appends\<close>

lemma chain_appends_Nil [simp]: "chain_appends c [] = c"
  by (simp add: chain_appends_def)

lemma chain_appends_Cons [simp]:
  "chain_appends c ((word, v) # log) = chain_appends (chain_append c word v) log"
  by (simp add: chain_appends_def)

lemma chain_appends_append [simp]:
  "chain_appends c (log1 @ log2) = chain_appends (chain_appends c log1) log2"
  by (simp add: chain_appends_def)

lemma Filter_ramp_appends:
  "\<exists>log r. (\<forall>c. Filter_ramp U p ws i c = (chain_appends c log, r)) \<and>
     (i \<le> length ws \<longrightarrow>
        length log = (if length ws < p then length ws + 1 - i else p - i) \<and>
        r = (length ws < p))"
proof (induction "p - i" arbitrary: i rule: less_induct)
  case less
  define word where "word = Repeat (SOH @ SP) (p - i) @ ToLower U (Join (slice ws 0 i) SP)"
  consider (finished) "\<not> i < p" | (ending) "i < p" "length ws \<le> i" | (step) "i < p" "i < length ws"
    by linarith
  then show ?case
  proof cases
    case finished
    then show ?thesis
      by (intro exI[of _ "[]"] exI[of _ False]) (simp add: Filter_ramp.simps[of U p ws i])
  next
    case ending
    then show ?thesis
      by (intro exI[of _ "[(word, NUL)]"] exI[of _ True])
         (auto simp: Filter_ramp.simps[of U p ws i] word_def)
  next
    case step
    then have "\<not> length ws \<le> i" by simp
    from step have "p - (i + 1) < p - i" by simp
    from less[OF this]
    obtain log r where all: "\<And>c. Filter_ramp U p ws (i + 1) c = (chain_appends c log, r)"
      and len: "i + 1 \<le> length ws \<longrightarrow>
        length log = (if length ws < p then length ws + 1 - (i + 1) else p - (i + 1)) \<and>
        r = (length ws < p)"
      by blast
    show ?thesis
      using step all len
      by (intro exI[of _ "(word, ws ! i) # log"] exI[of _ r])
         (auto simp: Filter_ramp.simps[of U p ws i] word_def)
  qed
qed

lemma Filter_window_appends:
  "\<exists>log r. (\<forall>c. Filter_window U p ws i c = (chain_appends c log, r)) \<and>
     ([] \<notin> set ws \<longrightarrow> length log = length ws - i \<and> r = None)"
proof (induction "length ws - i" arbitrary: i rule: less_induct)
  case less
  define word where "word = ToLower U (Join (slice ws (i - p) i) SP)"
  consider (finished) "\<not> i < length ws"
    | (gap) "i < length ws" "length (ws ! i) = 0"
    | (step) "i < length ws" "length (ws ! i) \<noteq> 0"
    by blast
  then show ?case
  proof cases
    case finished
    then show ?thesis
      by (intro exI[of _ "[]"] exI[of _ None]) (simp add: Filter_window.simps[of U p ws i])
  next
    case gap
    then have "[] \<in> set ws" by (metis length_0_conv nth_mem)
    with gap show ?thesis
      by (intro exI[of _ "[]"]
            exI[of _ "if int i < int (length ws) - 1 then Some (i + 1) else None"])
         (simp add: Filter_window.simps[of U p ws i])
  next
    case step
    then have "length ws - (i + 1) < length ws - i" by simp
    from less[OF this]
    obtain log r where all: "\<And>c. Filter_window U p ws (i + 1) c = (chain_appends c log, r)"
      and len: "[] \<notin> set ws \<longrightarrow> length log = length ws - (i + 1) \<and> r = None"
      by blast
    show ?thesis
      using step all len
      by (intro exI[of _ "(word, ws ! i) # log"] exI[of _ r])
         (auto simp: Filter_window.simps[of U p ws i] word_def)
  qed
qed

lemma Filter_appends:
  "\<exists>log. (\<forall>c. Filter U p c ws = chain_appends c log) \<and>
     (1 \<le> p \<longrightarrow> [] \<notin> set ws \<longrightarrow> length log = length ws + 1)"
proof (induction ws rule: length_induct)
  case (1 ws)
  obtain log1 r1 where ramp: "\<And>c. Filter_ramp U p ws 0 c = (chain_appends c log1, r1)"
    and len1: "length log1 = (if length ws < p then length ws + 1 else p)" "r1 = (length ws < p)"
    using Filter_ramp_appends[of U p ws 0] by auto
  obtain log2 r2 where window: "\<And>c. Filter_window U p ws p c = (chain_appends c log2, r2)"
    and len2: "[] \<notin> set ws \<longrightarrow> length log2 = length ws - p \<and> r2 = None"
    using Filter_window_appends[of U p ws p] by auto
  define word where
    "word = ToLower U (Join (slice ws (length ws - p) (length ws)) SP)"
  show ?case
  proof (cases r1)
    case True
    with ramp len1 show ?thesis
      by (intro exI[of _ log1]) (auto simp: Filter.simps[of U p _ ws])
  next
    case ramp_done: False
    show ?thesis
    proof (cases r2)
      case None
      with ramp_done ramp window len1 len2 show ?thesis
        by (intro exI[of _ "log1 @ log2 @ [(word, NUL)]"])
           (auto simp: Filter.simps[of U p _ ws] word_def)
    next
      case (Some j)
      with window have "0 < j \<and> j < length ws"
        using Filter_window_rest[of U p ws p Map.empty] by simp
      then have "length (slice ws j (length ws)) < length ws"
        by (auto simp: slice_def)
      with "1.IH" obtain log3 where
        rest: "\<And>c. Filter U p c (slice ws j (length ws)) = chain_appends c log3"
        by blast
      from Some len2 have "[] \<in> set ws" by auto
      with Some ramp_done ramp window rest show ?thesis
        by (intro exI[of _ "log1 @ log2 @ log3"]) (auto simp: Filter.simps[of U p _ ws])
    qed
  qed
qed

text \<open>
  The last statement of \<open>Filter\<close> slices \<open>words[len(words)-prefix:]\<close>. It is reached
  only when the first loop has run to its end, and then the bound is in range.
\<close>

lemma Filter_ramp_not_returned:
  "Filter_ramp U prefix words 0 c = (c', False) \<Longrightarrow> prefix \<le> length words"
  using Filter_ramp_appends[of U prefix words 0] by auto

lemma Filter_example:
  "Filter ascii_only 2 Map.empty [''Hello'', ''World'', ''foo''] ''hello world'' = Some [''foo'']"
  by code_simp

lemma lookup_chain_append:
  "lookup (chain_append c word v) key = (if key = word then lookup c key @ [v] else lookup c key)"
  by (simp add: chain_append_def lookup_def)

lemma lookup_chain_appends:
  "lookup (chain_appends c log) key = lookup c key @ map snd (filter (\<lambda>e. fst e = key) log)"
proof (induction log arbitrary: c)
  case Nil
  then show ?case by simp
next
  case (Cons e log)
  obtain word v where e: "e = (word, v)" by (cases e)
  show ?case by (simp add: e Cons.IH lookup_chain_append)
qed

lemma chain_append_apply:
  "chain_append c word v key = (if key = word then Some (lookup c word @ [v]) else c key)"
  by (simp add: chain_append_def)

lemma filter_no_key: "key \<notin> fst ` set log \<Longrightarrow> filter (\<lambda>e. fst e = key) log = []"
  by (induction log) auto

lemma chain_appends_key:
  "chain_appends c log key =
     (if key \<in> fst ` set log
      then Some (lookup c key @ map snd (filter (\<lambda>e. fst e = key) log))
      else c key)"
proof (induction log arbitrary: c)
  case Nil
  then show ?case by simp
next
  case (Cons e log)
  obtain word v where e: "e = (word, v)" by (cases e)
  show ?case
    by (simp add: e Cons.IH lookup_chain_append chain_append_apply filter_no_key)
qed

lemma lookup_empty: "lookup Map.empty key = []"
  by (simp add: lookup_def)

lemma count_indices: "length (filter (\<lambda>r. xs ! r = v) [0..<length xs]) = count_list xs v"
proof (induction xs rule: rev_induct)
  case Nil
  then show ?case by simp
next
  case (snoc x xs)
  have "filter (\<lambda>r. (xs @ [x]) ! r = v) [0..<length xs] = filter (\<lambda>r. xs ! r = v) [0..<length xs]"
    by (rule filter_cong) (auto simp: nth_append)
  then show ?case
    using snoc.IH by (simp add: count_list_append)
qed


section \<open>Claims about learning and sampling in the first engine\<close>

text \<open>
  C1. For an order of at least 1 and \<open>k\<close> tokens, none of them empty, the tuple
  builder makes \<open>k + 1\<close> records: \<open>tupleToks\<close> returns a list of \<open>k + 1\<close> tuples,
  and \<open>Filter\<close> performs \<open>k + 1\<close> appends on the chain, the same ones whatever the
  chain holds.
\<close>

theorem tuple_count:
  assumes "1 \<le> n" "1 \<le> prefix" "[] \<notin> set toks"
  shows "(\<exists>tt. tupleToks RE [] toks n = Inr tt \<and> length tt = length toks + 1) \<and>
         (\<exists>log. length log = length toks + 1 \<and>
                 (\<forall>c. Filter U prefix c toks = chain_appends c log))"
proof
  from tupleToks_closed[OF assms(1), of RE "[]" toks]
  show "\<exists>tt. tupleToks RE [] toks n = Inr tt \<and> length tt = length toks + 1"
    by auto
  from Filter_appends[of U prefix toks] assms(2,3)
  show "\<exists>log. length log = length toks + 1 \<and> (\<forall>c. Filter U prefix c toks = chain_appends c log)"
    by auto
qed

theorem tuple_count_witness:
  "(\<exists>tt. tupleToks (ToLower ascii_only) [] [''hello'', ''world''] 2 = Inr tt \<and>
          length tt = length [''hello'', ''world''] + 1) \<and>
   (\<exists>log. length log = length [''hello'', ''world''] + 1 \<and>
          (\<forall>c. Filter ascii_only 2 c [''hello'', ''world''] = chain_appends c log))"
proof -
  have "(1::int) \<le> 2" "(1::nat) \<le> 2" "[] \<notin> set [''hello'', ''world'']"
    by simp_all
  from tuple_count[OF this] show ?thesis .
qed

text \<open>
  C10. \<open>Filter\<close> only appends: under every key, the list stored before the call is a
  prefix of the list stored after it, and the key's entry is either left as it was or
  holds the old list followed by the new occurrences.
\<close>

theorem Filter_append_only:
  "\<exists>ys. lookup (Filter U prefix c words) key = lookup c key @ ys \<and>
        (Filter U prefix c words key = c key \<or>
         Filter U prefix c words key = Some (lookup c key @ ys))"
proof -
  from Filter_appends[of U prefix words]
  obtain log where log: "\<And>c. Filter U prefix c words = chain_appends c log" by blast
  show ?thesis
    by (rule exI[of _ "map snd (filter (\<lambda>e. fst e = key) log)"])
       (simp add: log lookup_chain_appends chain_appends_key)
qed

theorem Filter_append_only_witness:
  "\<exists>ys. lookup (Filter ascii_only 2 [''a b'' \<mapsto> [''c'']] [''a'', ''b'', ''d'']) ''a b''
          = [''c''] @ ys \<and>
        (Filter ascii_only 2 [''a b'' \<mapsto> [''c'']] [''a'', ''b'', ''d''] ''a b''
           = Some [''c''] \<or>
         Filter ascii_only 2 [''a b'' \<mapsto> [''c'']] [''a'', ''b'', ''d''] ''a b''
           = Some ([''c''] @ ys))"
  using Filter_append_only[of ascii_only 2 "[''a b'' \<mapsto> [''c'']]" "[''a'', ''b'', ''d'']" "''a b''"]
  by (simp add: lookup_def)

text \<open>
  For a message without empty words, \<open>Filter\<close> records exactly the occurrences listed
  by \<open>transitions\<close>, one append for each, in their order.
\<close>

lemma Filter_ramp_exact:
  assumes "i \<le> length ws"
  shows "Filter_ramp U p ws i c =
     (chain_appends c
        (map (\<lambda>j. (transition_key U p ws j, transition_suffix ws j))
           [i..<(if length ws < p then Suc (length ws) else p)]),
      length ws < p)"
  using assms
proof (induction "p - i" arbitrary: i c rule: less_induct)
  case less
  consider (finished) "\<not> i < p" | (ending) "i < p" "length ws \<le> i" | (step) "i < p" "i < length ws"
    by linarith
  then show ?case
  proof cases
    case finished
    with less.prems show ?thesis
      by (simp add: Filter_ramp.simps[of U p ws i])
  next
    case ending
    with less.prems have "length ws < p" "[i..<Suc (length ws)] = [i]" "\<not> i < length ws"
      by auto
    with ending show ?thesis
      by (simp add: Filter_ramp.simps[of U p ws i] transition_key_def transition_suffix_def
          del: upt.simps)
  next
    case step
    then have m: "p - Suc i < p - i" and n: "Suc i \<le> length ws" by auto
    have upt: "[i..<(if length ws < p then Suc (length ws) else p)]
        = i # [Suc i..<(if length ws < p then Suc (length ws) else p)]"
      using step by (auto simp: upt_conv_Cons)
    show ?thesis
      unfolding upt using step
      by (simp add: Filter_ramp.simps[of U p ws i] less.hyps[OF m n]
          transition_key_def transition_suffix_def del: upt.simps)
  qed
qed

lemma Filter_window_exact:
  assumes "[] \<notin> set ws" "p \<le> i"
  shows "Filter_window U p ws i c =
     (chain_appends c
        (map (\<lambda>j. (transition_key U p ws j, transition_suffix ws j)) [i..<length ws]),
      None)"
  using assms(2)
proof (induction "length ws - i" arbitrary: i c rule: less_induct)
  case less
  show ?case
  proof (cases "i < length ws")
    case False
    then show ?thesis
      by (simp add: Filter_window.simps[of U p ws i])
  next
    case True
    then have "ws ! i \<in> set ws" by simp
    with assms(1) have ne: "length (ws ! i) \<noteq> 0" by auto
    from True have m: "length ws - Suc i < length ws - i" by simp
    from less.prems have n: "p \<le> Suc i" by simp
    have upt: "[i..<length ws] = i # [Suc i..<length ws]"
      using True by (simp add: upt_conv_Cons)
    show ?thesis
      unfolding upt using True ne less.prems
      by (simp add: Filter_window.simps[of U p ws i] less.hyps[OF m n]
          transition_key_def transition_suffix_def del: upt.simps)
  qed
qed

lemma Filter_transitions:
  assumes "[] \<notin> set ws"
  shows "Filter U p c ws = chain_appends c (transitions U p ws)"
proof (cases "length ws < p")
  case True
  then show ?thesis
    by (simp add: Filter.simps[of U p c ws] Filter_ramp_exact transitions_def del: upt.simps)
next
  case False
  have "[0..<p + (length ws - p)] = [0..<p] @ [p..<p + (length ws - p)]"
    by (rule upt_add_eq_append) simp
  with False have "[0..<length ws] = [0..<p] @ [p..<length ws]"
    by simp
  then have split: "[0..<Suc (length ws)] = [0..<p] @ [p..<length ws] @ [length ws]"
    by simp
  have last: "(transition_key U p ws (length ws), transition_suffix ws (length ws))
      = (ToLower U (Join (slice ws (length ws - p) (length ws)) SP), NUL)"
    using False by (simp add: transition_key_def transition_suffix_def)
  from False show ?thesis
    unfolding transitions_def
    by (simp add: Filter.simps[of U p c ws] Filter_ramp_exact Filter_window_exact[OF assms]
        split last del: upt.simps)
qed

lemma count_pairs:
  "count_list (map snd (filter (\<lambda>e. fst e = key) log)) v = count_list log (key, v)"
  by (induction log) (auto simp: prod_eq_iff)

lemma count_indices_mod:
  "length (filter (\<lambda>r. xs ! (r mod length xs) = v) [0..<length xs]) = count_list xs v"
proof -
  have "filter (\<lambda>r. xs ! (r mod length xs) = v) [0..<length xs]
      = filter (\<lambda>r. xs ! r = v) [0..<length xs]"
    by (rule filter_cong) auto
  then show ?thesis by (simp add: count_indices)
qed

lemma learnt_entry:
  "Filter ascii_only 1 Map.empty [''a'', ''a'', ''a''] (ToLower ascii_only ''a'')
     = Some [''a'', ''a'', NUL]"
  by code_simp

lemma transitions_example:
  "transitions ascii_only 1 [''a'', ''a'', ''a'']
     = [(SOH @ SP, ''a''), (''a'', ''a''), (''a'', ''a''), (''a'', NUL)]"
  by code_simp

lemma learnt_multiplicity_example:
  "count_list (lookup (Filter ascii_only 1 Map.empty [''a'', ''a'', ''a'']) ''a'') ''a'' = 2"
  by code_simp

text \<open>
  C4. Sampling is by occurrence. At a step of \<open>Walk\<close> that finds the list \<open>words\<close>
  under the lower-cased current prefix, the next suffix is the entry of that list at
  the index \<open>rand.Intn(len(words))\<close> draws, and the walk goes on from it as the source
  says. Over the indices \<open>0 .. len(words) - 1\<close>, which \<open>rand.Intn\<close> makes equally
  likely, a suffix is taken as many times as it occurs in the list, not once for every
  distinct suffix. \<open>Filter\<close> records one list entry for each learned occurrence:
  after learning a message without empty words, the multiplicity of a suffix under a
  key is what it was before plus the number of times the pair of this key and this
  suffix occurs among the occurrences of the message.
\<close>

theorem sampling_by_occurrence:
  assumes budget: "sum_len < 400"
    and found: "c (ToLower U word) = Some words" and some: "words \<noteq> []"
    and tokens: "[] \<notin> set toks"
  shows "Walk_loop U c rnd i word s sum_len =
           (let nextword = words ! (rnd i mod length words) in
            if nextword = NUL then Some (i + 1, Inr (Join s SP))
            else
              (case Fields U (TrimRight word SP) of
                 [] \<Rightarrow> Some (i + 1, Inl SliceBoundsOutOfRange)
               | f # fs \<Rightarrow>
                   Walk_loop U c rnd (i + 1) (Join (fs @ [nextword]) SP)
                     (if nextword \<noteq> SOH then s @ [nextword] else s)
                     (if nextword \<noteq> SOH then sum_len + (length nextword + 1)
                      else sum_len))) \<and>
         length (filter (\<lambda>r. words ! (r mod length words) = v) [0..<length words])
           = count_list words v \<and>
         count_list (lookup (Filter U prefix c0 toks) key) v
           = count_list (lookup c0 key) v + count_list (transitions U prefix toks) (key, v)"
proof (intro conjI)
  show "Walk_loop U c rnd i word s sum_len =
           (let nextword = words ! (rnd i mod length words) in
            if nextword = NUL then Some (i + 1, Inr (Join s SP))
            else
              (case Fields U (TrimRight word SP) of
                 [] \<Rightarrow> Some (i + 1, Inl SliceBoundsOutOfRange)
               | f # fs \<Rightarrow>
                   Walk_loop U c rnd (i + 1) (Join (fs @ [nextword]) SP)
                     (if nextword \<noteq> SOH then s @ [nextword] else s)
                     (if nextword \<noteq> SOH then sum_len + (length nextword + 1)
                      else sum_len)))"
    using budget found some
    by (subst Walk_loop.simps) (simp add: Walk_sample_def Intn_def Let_def)
  show "length (filter (\<lambda>r. words ! (r mod length words) = v) [0..<length words])
      = count_list words v"
    by (rule count_indices_mod)
  show "count_list (lookup (Filter U prefix c0 toks) key) v
      = count_list (lookup c0 key) v + count_list (transitions U prefix toks) (key, v)"
    by (simp add: Filter_transitions[OF tokens] lookup_chain_appends count_pairs)
qed

theorem sampling_by_occurrence_witness:
  "Walk_loop ascii_only (Filter ascii_only 1 Map.empty [''a'', ''a'', ''a'']) (\<lambda>i. 7) 0 ''a'' [] 0 =
     (let nextword = [''a'', ''a'', NUL] ! ((\<lambda>i. 7) (0::nat) mod length [''a'', ''a'', NUL]) in
      if nextword = NUL then Some (0 + 1, Inr (Join [] SP))
      else
        (case Fields ascii_only (TrimRight ''a'' SP) of
           [] \<Rightarrow> Some (0 + 1, Inl SliceBoundsOutOfRange)
         | f # fs \<Rightarrow>
             Walk_loop ascii_only (Filter ascii_only 1 Map.empty [''a'', ''a'', ''a'']) (\<lambda>i. 7)
               (0 + 1) (Join (fs @ [nextword]) SP)
               (if nextword \<noteq> SOH then [] @ [nextword] else [])
               (if nextword \<noteq> SOH then 0 + (length nextword + 1) else 0))) \<and>
   length (filter (\<lambda>r. [''a'', ''a'', NUL] ! (r mod length [''a'', ''a'', NUL]) = ''a'')
             [0..<length [''a'', ''a'', NUL]])
     = count_list [''a'', ''a'', NUL] ''a'' \<and>
   count_list (lookup (Filter ascii_only 1 Map.empty [''a'', ''a'', ''a'']) ''a'') ''a''
     = count_list (lookup Map.empty ''a'') ''a''
       + count_list (transitions ascii_only 1 [''a'', ''a'', ''a'']) (''a'', ''a'')"
proof -
  have "(0::nat) < 400" "[''a'', ''a'', NUL] \<noteq> []" "[] \<notin> set [''a'', ''a'', ''a'']"
    by simp_all
  from sampling_by_occurrence
         [where sum_len = 0 and c = "Filter ascii_only 1 Map.empty [''a'', ''a'', ''a'']"
            and U = ascii_only and word = "''a''" and words = "[''a'', ''a'', NUL]"
            and toks = "[''a'', ''a'', ''a'']" and rnd = "\<lambda>i. 7" and i = 0 and s = "[]"
            and v = "''a''" and prefix = 1 and ?c0.0 = Map.empty and key = "''a''",
          OF this(1) learnt_entry this(2,3)]
  show ?thesis .
qed

section \<open>Claims about generation in the first engine\<close>

lemma Walk_example:
  "Walk ascii_only (Filter ascii_only 2 Map.empty [''Hello'', ''World'', ''foo'']) (\<lambda>i. 0)
     (Repeat (SOH @ SP) 2) = Some (Inr ''Hello World foo'')"
  by code_simp



text \<open>
  On ASCII words \<open>Filter\<close> never reaches the Unicode parameter, so the chain learned
  from them is the same for every value of it.
\<close>

lemma isASCII_append [simp]: "isASCII (a @ b) = (isASCII a \<and> isASCII b)"
  by (simp add: isASCII_def)

lemma isASCII_Join: "list_all isASCII ws \<Longrightarrow> isASCII sep \<Longrightarrow> isASCII (Join ws sep)"
  by (induction ws sep rule: Join.induct) (simp_all add: isASCII_def)

lemma list_all_slice: "list_all P ws \<Longrightarrow> list_all P (slice ws lo hi)"
  by (auto simp: slice_def list_all_iff dest: in_set_takeD in_set_dropD)

lemma ToLower_slice_any:
  "list_all isASCII ws \<Longrightarrow>
     ToLower U (Join (slice ws lo hi) SP) = ToLower V (Join (slice ws lo hi) SP)"
proof -
  assume "list_all isASCII ws"
  then have "list_all isASCII (slice ws lo hi)" by (rule list_all_slice)
  then have "isASCII (Join (slice ws lo hi) SP)"
    by (rule isASCII_Join) (simp add: isASCII_def)
  then show ?thesis by (simp add: ToLower_def)
qed

lemma Filter_ramp_any:
  assumes "list_all isASCII ws"
  shows "Filter_ramp U p ws i c = Filter_ramp V p ws i c"
proof (induction "p - i" arbitrary: i c rule: less_induct)
  case less
  show ?case
  proof (cases "i < p \<and> i < length ws")
    case True
    then have "p - (i + 1) < p - i" by auto
    from less[OF this] True show ?thesis
      by (simp add: Filter_ramp.simps[of _ p ws i c] ToLower_slice_any[OF assms, of U _ _ V])
  next
    case False
    then show ?thesis
      by (auto simp: Filter_ramp.simps[of _ p ws i c] ToLower_slice_any[OF assms, of U _ _ V])
  qed
qed

lemma Filter_window_any:
  assumes "list_all isASCII ws"
  shows "Filter_window U p ws i c = Filter_window V p ws i c"
proof (induction "length ws - i" arbitrary: i c rule: less_induct)
  case less
  show ?case
  proof (cases "i < length ws \<and> length (ws ! i) \<noteq> 0")
    case True
    then have "length ws - (i + 1) < length ws - i" by auto
    from less[OF this] True show ?thesis
      by (simp add: Filter_window.simps[of _ p ws i c] ToLower_slice_any[OF assms, of U _ _ V])
  next
    case False
    then show ?thesis
      by (auto simp: Filter_window.simps[of _ p ws i c])
  qed
qed

lemma Filter_any:
  "list_all isASCII ws \<Longrightarrow> Filter U p c ws = Filter V p c ws"
proof (induction ws arbitrary: c rule: length_induct)
  case (1 ws)
  note ascii = "1.prems"
  obtain c1 r1 where ramp: "Filter_ramp V p ws 0 c = (c1, r1)" by (cases "Filter_ramp V p ws 0 c")
  obtain c2 r2 where window: "Filter_window V p ws p c1 = (c2, r2)"
    by (cases "Filter_window V p ws p c1")
  show ?case
  proof (cases r2)
    case None
    with ramp window show ?thesis
      by (simp add: Filter.simps[of _ p c ws] Filter_ramp_any[OF ascii, of U _ _ _ V]
          Filter_window_any[OF ascii, of U _ _ _ V] ToLower_slice_any[OF ascii, of U _ _ V])
  next
    case (Some j)
    with window have "0 < j \<and> j < length ws" using Filter_window_rest by blast
    then have "length (slice ws j (length ws)) < length ws" by (auto simp: slice_def)
    moreover have "list_all isASCII (slice ws j (length ws))"
      using ascii by (rule list_all_slice)
    ultimately have "Filter U p c2 (slice ws j (length ws)) = Filter V p c2 (slice ws j (length ws))"
      using "1.IH" by blast
    with Some ramp window show ?thesis
      by (simp add: Filter.simps[of _ p c ws] Filter_ramp_any[OF ascii, of U _ _ _ V]
          Filter_window_any[OF ascii, of U _ _ _ V])
  qed
qed

lemma hang_chain_any: "Filter U 2 Map.empty hang_words = hang_chain"
  unfolding hang_chain_def
  by (rule Filter_any) (simp add: hang_words_def isASCII_def)

lemma hang_chain_entries:
  "hang_chain (SOH @ SP @ SOH @ SP) = Some [''a'']"
  "hang_chain (SOH @ SP @ ''a'') = Some [SOH]"
  "hang_chain (''a'' @ SP @ SOH) = Some [SOH]"
  "hang_chain (SOH @ SP @ SOH) = Some [SOH]"
  unfolding hang_chain_def hang_words_def by code_simp+

lemma Walk_loop_stuck_Some:
  assumes "Walk_loop U c rnd i word s sum_len = Some y"
  shows "\<not> (c = hang_chain \<and> word = SOH @ SP @ SOH \<and> sum_len < 400)"
proof (rule Walk_loop.raw_induct
    [where P = "\<lambda>U c rnd i word s sum_len y.
       \<not> (c = hang_chain \<and> word = SOH @ SP @ SOH \<and> sum_len < 400)",
     OF _ assms])
  fix loop :: "unicode \<Rightarrow> chain \<Rightarrow> (nat \<Rightarrow> nat) \<Rightarrow> nat \<Rightarrow> string \<Rightarrow> string list \<Rightarrow> nat
      \<Rightarrow> (nat \<times> (panic + string)) option"
    and U c rnd i word s sum_len y
  assume IH: "\<And>U c rnd i word s sum_len y. loop U c rnd i word s sum_len = Some y \<Longrightarrow>
      \<not> (c = hang_chain \<and> word = SOH @ SP @ SOH \<and> sum_len < 400)"
  assume body: "(if sum_len < 400 then
        (case c (ToLower U word) of
           None \<Rightarrow> Some (i + 1, Inr (Join s SP))
         | Some words \<Rightarrow>
             (case Walk_sample words (rnd i) of
                Inl e \<Rightarrow> Some (i + 1, Inl e)
              | Inr nextword \<Rightarrow>
                  if nextword = NUL then Some (i + 1, Inr (Join s SP))
                  else
                    (case Fields U (TrimRight word SP) of
                       [] \<Rightarrow> Some (i + 1, Inl SliceBoundsOutOfRange)
                     | f # fs \<Rightarrow>
                         loop U c rnd (i + 1) (Join (fs @ [nextword]) SP)
                           (if nextword \<noteq> SOH then s @ [nextword] else s)
                           (if nextword \<noteq> SOH then sum_len + (length nextword + 1)
                            else sum_len))))
      else Some (i, Inr (Join s SP))) = Some y"
  show "\<not> (c = hang_chain \<and> word = SOH @ SP @ SOH \<and> sum_len < 400)"
  proof
    assume st: "c = hang_chain \<and> word = SOH @ SP @ SOH \<and> sum_len < 400"
    have low: "ToLower U (SOH @ SP @ SOH) = SOH @ SP @ SOH"
      by (simp add: ToLower_def isASCII_def lower_byte_def)
    have fld: "Fields U (TrimRight (SOH @ SP @ SOH) SP) = [SOH, SOH]"
      by (simp add: Fields_def TrimRight_def isASCII_def asciiSpace_def)
    have smp: "Walk_sample [SOH] (rnd i) = Inr SOH"
      by (simp add: Walk_sample_def Intn_def)
    from body st have "loop U c rnd (i + 1) word s sum_len = Some y"
      using hang_chain_entries(4) low fld smp by simp
    from IH[OF this] st show False by simp
  qed
qed

lemma Walk_loop_stuck:
  "sum_len < 400 \<Longrightarrow> Walk_loop U hang_chain rnd i (SOH @ SP @ SOH) s sum_len = None"
  using Walk_loop_stuck_Some[of U hang_chain rnd i "SOH @ SP @ SOH" s sum_len]
  by (cases "Walk_loop U hang_chain rnd i (SOH @ SP @ SOH) s sum_len") auto

text \<open>
  C3. A walk is claimed to return within a number of steps that depends neither on the
  chain nor on the draws. The loop is bounded by the length of the output only, and a
  sampled \<open>"\x01"\<close> adds nothing to it. After the one chat line
  \<open>"a \x01 \x01 \x01 "\<close>, learned with the default order 2, the walk from the start
  prefix never returns, whatever the generator draws.
\<close>

theorem Walk_never_returns:
  "Walk U (Filter U 2 Map.empty [''a'', SOH, SOH, SOH, '''']) rnd (Repeat (SOH @ SP) 2) = None"
proof -
  have low: "ToLower U (SOH @ SP @ SOH @ SP) = SOH @ SP @ SOH @ SP"
      "ToLower U (SOH @ SP @ ''a'') = SOH @ SP @ ''a''"
      "ToLower U (''a'' @ SP @ SOH) = ''a'' @ SP @ SOH"
    by (simp_all add: ToLower_def isASCII_def lower_byte_def)
  have fld: "Fields U (TrimRight (SOH @ SP @ SOH @ SP) SP) = [SOH, SOH]"
      "Fields U (TrimRight (SOH @ SP @ ''a'') SP) = [SOH, ''a'']"
      "Fields U (TrimRight (''a'' @ SP @ SOH) SP) = [''a'', SOH]"
    by (simp_all add: Fields_def TrimRight_def isASCII_def asciiSpace_def)
  have smp: "\<And>x r. Walk_sample [x] r = Inr x"
    by (simp add: Walk_sample_def Intn_def)
  have "Walk_loop U hang_chain rnd 0 (SOH @ SP @ SOH @ SP) [] 0
      = Walk_loop U hang_chain rnd 1 (SOH @ SP @ ''a'') [''a''] 2"
    using hang_chain_entries(1) low(1) fld(1) smp
    by (subst Walk_loop.simps) (simp add: numeral_2_eq_2 numeral_3_eq_3)
  also have "\<dots> = Walk_loop U hang_chain rnd 2 (''a'' @ SP @ SOH) [''a''] 2"
    using hang_chain_entries(2) low(2) fld(2) smp
    by (subst Walk_loop.simps) (simp add: numeral_2_eq_2 numeral_3_eq_3)
  also have "\<dots> = Walk_loop U hang_chain rnd 3 (SOH @ SP @ SOH) [''a''] 2"
    using hang_chain_entries(3) low(3) fld(3) smp
    by (subst Walk_loop.simps) (simp add: numeral_2_eq_2 numeral_3_eq_3)
  also have "\<dots> = None"
    by (rule Walk_loop_stuck) simp
  finally have "Walk_loop U hang_chain rnd 0 (SOH @ SP @ SOH @ SP) [] 0 = None" .
  moreover have "Filter U 2 Map.empty [''a'', SOH, SOH, SOH, ''''] = hang_chain"
    using hang_chain_any[of U] by (simp add: hang_words_def)
  ultimately show ?thesis
    by (simp add: Walk_def Repeat_def numeral_2_eq_2)
qed

text \<open>
  What the loop does guarantee: where no occurrence list of the chain holds
  \<open>"\x01"\<close>, every iteration that goes on adds at least 1 to \<open>sum\<close>, and the loop
  body is entered at most 400 times.
\<close>

lemma Walk_sample_member:
  "Walk_sample words raw = Inr nextword \<Longrightarrow> nextword \<in> set words"
  by (auto simp: Walk_sample_def Intn_def split: if_splits)

lemma Walk_loop_bounded:
  assumes clean: "\<forall>k ws. c k = Some ws \<longrightarrow> SOH \<notin> set ws"
  shows "\<exists>k r. Walk_loop U c rnd i word s sum_len = Some (k, r) \<and> k \<le> i + (400 - sum_len)"
proof (induction "400 - sum_len" arbitrary: i word s sum_len rule: less_induct)
  case less
  show ?case
  proof (cases "sum_len < 400")
    case False
    then show ?thesis
      by (subst Walk_loop.simps) simp
  next
    case budget: True
    show ?thesis
    proof (cases "c (ToLower U word)")
      case None
      with budget show ?thesis
        by (subst Walk_loop.simps) simp
    next
      case (Some words)
      show ?thesis
      proof (cases "Walk_sample words (rnd i)")
        case (Inl e)
        with budget Some show ?thesis
          by (subst Walk_loop.simps) simp
      next
        case (Inr nextword)
        then have "nextword \<in> set words" by (rule Walk_sample_member)
        with clean Some have ns: "nextword \<noteq> SOH" by blast
        show ?thesis
        proof (cases "nextword = NUL")
          case True
          with budget Some Inr show ?thesis
            by (subst Walk_loop.simps) simp
        next
          case nn: False
          show ?thesis
          proof (cases "Fields U (TrimRight word SP)")
            case Nil
            with budget Some Inr nn show ?thesis
              by (subst Walk_loop.simps) simp
          next
            case (Cons f fs)
            from budget have "400 - (sum_len + (length nextword + 1)) < 400 - sum_len"
              by simp
            from less[OF this, of "i + 1" "Join (fs @ [nextword]) SP" "s @ [nextword]"]
            obtain k r where kr: "Walk_loop U c rnd (i + 1) (Join (fs @ [nextword]) SP)
                (s @ [nextword]) (sum_len + (length nextword + 1)) = Some (k, r)"
              "k \<le> i + 1 + (400 - (sum_len + (length nextword + 1)))"
              by blast
            from kr(2) budget have "k \<le> i + (400 - sum_len)" by simp
            with budget Some Inr nn ns Cons kr(1) show ?thesis
              by (subst Walk_loop.simps) simp
          qed
        qed
      qed
    qed
  qed
qed

lemma Walk_bounded:
  assumes "\<forall>k ws. c k = Some ws \<longrightarrow> SOH \<notin> set ws"
  shows "\<exists>k r. Walk_loop U c rnd 0 word [] 0 = Some (k, r) \<and> k \<le> 400"
  using Walk_loop_bounded[OF assms, of U rnd 0 word "[]" 0] by simp

section \<open>The canonicalizer\<close>

text \<open>
  \<open>strings.ToLower\<close> on ASCII tokens: it keeps them ASCII, it is idempotent, and it is
  the identity on the empty string and on the two sentinels of the first engine. On a
  token with a byte outside ASCII the result is that of the standard library's Unicode
  tables, which are a parameter here and about which nothing is proved.
\<close>

lemma lower_byte_idem: "lower_byte (lower_byte ch) = lower_byte ch"
proof (cases "(65::nat) \<le> of_char ch \<and> (of_char ch :: nat) \<le> 90")
  case True
  then have "(of_char (char_of ((of_char ch :: nat) + 32)) :: nat) = of_char ch + 32"
    by simp
  then have "\<not> (of_char (char_of ((of_char ch :: nat) + 32)) :: nat) \<le> 90"
    using True by linarith
  then show ?thesis
    unfolding lower_byte_def by (simp only: True if_True if_False simp_thms)
next
  case False
  then show ?thesis
    unfolding lower_byte_def by (simp only: if_False)
qed

lemma lower_byte_ascii: "(of_char ch :: nat) < 128 \<Longrightarrow> (of_char (lower_byte ch) :: nat) < 128"
  by (simp add: lower_byte_def)

lemma isASCII_map_lower_byte: "isASCII s \<Longrightarrow> isASCII (map lower_byte s)"
  by (induction s) (simp_all add: isASCII_def lower_byte_ascii)

lemma ToLower_ascii_idem: "isASCII t \<Longrightarrow> ToLower U (ToLower U t) = ToLower U t"
  by (simp add: ToLower_def isASCII_map_lower_byte lower_byte_idem)

lemma ToLower_sentinels: "ToLower U [] = [] \<and> ToLower U SOH = SOH \<and> ToLower U NUL = NUL"
  by (simp add: ToLower_def isASCII_def lower_byte_def)

end
